theory Spec2Isabelle
  imports Main
begin

section \<open>Data model of the buffer manager (src/buffer.cpp)\<close>

text \<open>
  Files are identified by handle identity (a \<open>File*\<close> in the source); a null pointer
  is \<open>None\<close> of \<open>File option\<close>. \<open>PageId\<close> and \<open>FrameId\<close> are \<open>std::uint32_t\<close>; they are
  natural numbers here, and the one place where the source relies on unsigned wrap-around
  (the clock hand) has the \<open>mod 2 ^ 32\<close> written out.
\<close>

type_synonym File = nat
type_synonym PageId = nat
type_synonym FrameId = nat

record Page =
  page_number :: PageId
  payload :: nat

record BufDesc =
  file_ptr :: "File option"
  pageNo :: PageId
  frameNo :: FrameId
  pinCnt :: nat
  dirty :: bool
  valid :: bool
  refbit :: bool

datatype error =
    BufferExceeded
  | PageNotPinned
  | PagePinned
  | BadBuffer
  | HashNotFound
  | InvalidPage
  | NullPointer
  | DivisionByZero
  | OutOfFuel

text \<open>Calls made into the file layer, in the order they are made.\<close>

datatype event =
    AllocatePage File PageId
  | ReadPage File PageId
  | WritePage File Page
  | DeletePage File PageId

text \<open>
  The members of \<open>BufMgr\<close>, the namespace-level scratch variable \<open>frameNum\<close>, and the
  world the manager talks to: the pages each file holds (\<open>disk\<close>) and the trace of
  file-layer calls (\<open>io\<close>).
\<close>

record BufMgr =
  numBufs :: nat
  bufDescTable :: "BufDesc list"
  bufPool :: "Page list"
  hashTable :: "(File \<times> PageId) \<rightharpoonup> FrameId"
  clockHand :: FrameId
  frameNum :: FrameId
  disk :: "File \<Rightarrow> (PageId \<rightharpoonup> Page)"
  io :: "event list"

type_synonym 'a result = "(error + 'a) \<times> BufMgr"

section \<open>Collaborators declared outside src/\<close>

text \<open>
  Modelled from the spec: \<open>BufDesc::Set\<close> (buffer.h is not under src/). Section 4.3:
  \<open>Set(file, pageNo)\<close> gives \<open>valid=true, file=file, pageNo=pageNo, pinCnt=1, refbit=1,
  dirty=false\<close>.
\<close>

definition BufDesc_Set :: "BufDesc \<Rightarrow> File option \<Rightarrow> PageId \<Rightarrow> BufDesc" where
  "BufDesc_Set d F p =
     d\<lparr>valid := True, file_ptr := F, pageNo := p, pinCnt := 1, refbit := True, dirty := False\<rparr>"

text \<open>
  Modelled from the spec: \<open>BufDesc::Clear\<close> (buffer.h is not under src/). Section 4.3:
  \<open>Clear()\<close> gives \<open>valid=false, file=nil, pinCnt=0, refbit=0, dirty=false\<close>; \<open>pageNo\<close> may
  be left stale.
\<close>

definition BufDesc_Clear :: "BufDesc \<Rightarrow> BufDesc" where
  "BufDesc_Clear d =
     d\<lparr>valid := False, file_ptr := None, pinCnt := 0, refbit := False, dirty := False\<rparr>"

text \<open>
  Modelled from the spec: the default-constructed \<open>BufDesc\<close> (buffer.h is not under
  src/), the Empty state of section 4.3 with no file.
\<close>

definition BufDesc_new :: BufDesc where
  "BufDesc_new =
     \<lparr>file_ptr = None, pageNo = 0, frameNo = 0, pinCnt = 0, dirty = False, valid = False,
      refbit = False\<rparr>"

text \<open>
  Modelled from the spec: the frame directory \<open>BufHashTbl\<close> (not under src/), section 4.1.
  \<open>lookup\<close> reports a miss distinctly from a hit; \<open>insert\<close> makes a later \<open>lookup\<close> return
  the frame; \<open>remove\<close> fails with \<open>HashNotFound\<close> if there is no such entry. Entries are
  only ever inserted for a non-null file, so a null file is never found.
\<close>

definition ht_lookup :: "((File \<times> PageId) \<rightharpoonup> FrameId) \<Rightarrow> File \<Rightarrow> PageId \<Rightarrow> FrameId option" where
  "ht_lookup m F p = m (F, p)"

definition ht_insert ::
  "((File \<times> PageId) \<rightharpoonup> FrameId) \<Rightarrow> File \<Rightarrow> PageId \<Rightarrow> FrameId \<Rightarrow> ((File \<times> PageId) \<rightharpoonup> FrameId)" where
  "ht_insert m F p f = m((F, p) \<mapsto> f)"

definition ht_remove ::
  "((File \<times> PageId) \<rightharpoonup> FrameId) \<Rightarrow> File option \<Rightarrow> PageId \<Rightarrow> ((File \<times> PageId) \<rightharpoonup> FrameId) option" where
  "ht_remove m fo p =
     (case fo of
        None \<Rightarrow> None
      | Some F \<Rightarrow> (if m (F, p) = None then None else Some (m((F, p) := None))))"

text \<open>
  Modelled from the spec: the file layer (external collaborator, section 6).
  \<open>readPage\<close> fails with an I/O error if the page is absent; \<open>writePage\<close> persists the page
  by its embedded page number; \<open>deletePage\<close> removes the page. The page that
  \<open>allocatePage\<close> hands out is chosen by the file layer, so it is an input of the model.
  Every call is appended to the trace.
\<close>

definition file_readPage :: "File \<Rightarrow> PageId \<Rightarrow> BufMgr \<Rightarrow> Page result" where
  "file_readPage F p s =
     (let s1 = s\<lparr>io := io s @ [ReadPage F p]\<rparr>
      in case disk s F p of
           None \<Rightarrow> (Inl InvalidPage, s1)
         | Some pg \<Rightarrow> (Inr pg, s1))"

definition file_writePage :: "File \<Rightarrow> Page \<Rightarrow> BufMgr \<Rightarrow> BufMgr" where
  "file_writePage F pg s =
     s\<lparr>disk := (disk s)(F := (disk s F)(page_number pg \<mapsto> pg)),
       io := io s @ [WritePage F pg]\<rparr>"

definition file_deletePage :: "File \<Rightarrow> PageId \<Rightarrow> BufMgr \<Rightarrow> BufMgr" where
  "file_deletePage F p s =
     s\<lparr>disk := (disk s)(F := (disk s F)(p := None)),
       io := io s @ [DeletePage F p]\<rparr>"

definition file_allocatePage :: "File \<Rightarrow> Page \<Rightarrow> BufMgr \<Rightarrow> BufMgr" where
  "file_allocatePage F pg s =
     s\<lparr>disk := (disk s)(F := (disk s F)(page_number pg \<mapsto> pg)),
       io := io s @ [AllocatePage F (page_number pg)]\<rparr>"

text \<open>\<open>ptr->writePage(page)\<close> through a descriptor's file pointer, which may be null.\<close>

definition writePage_via :: "File option \<Rightarrow> Page \<Rightarrow> BufMgr \<Rightarrow> error + BufMgr" where
  "writePage_via fo pg s =
     (case fo of None \<Rightarrow> Inl NullPointer | Some F \<Rightarrow> Inr (file_writePage F pg s))"

section \<open>The buffer manager\<close>

text \<open>\<open>BufMgr::BufMgr(bufs)\<close>: every descriptor gets its index and \<open>valid = false\<close>;
  the clock hand is \<open>bufs - 1\<close> in unsigned 32-bit arithmetic.\<close>

definition BufMgr_new :: "nat \<Rightarrow> (File \<Rightarrow> (PageId \<rightharpoonup> Page)) \<Rightarrow> BufMgr" where
  "BufMgr_new bufs dsk =
     \<lparr>numBufs = bufs,
      bufDescTable = map (\<lambda>i. BufDesc_new\<lparr>frameNo := i, valid := False\<rparr>) [0..<bufs],
      bufPool = replicate bufs \<lparr>page_number = 0, payload = 0\<rparr>,
      hashTable = Map.empty,
      clockHand = (bufs + 2 ^ 32 - 1) mod 2 ^ 32,
      frameNum = 0,
      disk = dsk,
      io = []\<rparr>"

text \<open>\<open>advanceClock\<close>: \<open>clockHand = (clockHand + 1) % numBufs\<close>. The remainder by zero
  is undefined in the source and an error here.\<close>

definition advanceClock :: "BufMgr \<Rightarrow> error + BufMgr" where
  "advanceClock s =
     (if numBufs s = 0 then Inl DivisionByZero
      else Inr (s\<lparr>clockHand := ((clockHand s + 1) mod 2 ^ 32) mod numBufs s\<rparr>))"

text \<open>
  The \<open>while(1)\<close> loop of \<open>allocBuf\<close>, one equation per iteration; \<open>current\<close> is the local
  counter of pinned frames passed. The loop is driven by fuel; \<open>allocBuf\<close> supplies
  \<open>2 * numBufs + 1\<close>, which lemma \<open>allocBuf_fuel_suffices\<close> shows is never used up.
\<close>

fun allocBuf_loop :: "nat \<Rightarrow> nat \<Rightarrow> BufMgr \<Rightarrow> FrameId result" where
  "allocBuf_loop 0 current s = (Inl OutOfFuel, s)"
| "allocBuf_loop (Suc fuel) current s =
     (case advanceClock s of
        Inl e \<Rightarrow> (Inl e, s)
      | Inr s1 \<Rightarrow>
          (let h = clockHand s1; d = bufDescTable s1 ! h in
           if valid d then
             if pinCnt d > 0 then
               (if current + 1 = numBufs s1 then (Inl BufferExceeded, s1)
                else allocBuf_loop fuel (current + 1) s1)
             else if refbit d then
               allocBuf_loop fuel current
                 (s1\<lparr>bufDescTable := (bufDescTable s1)[h := d\<lparr>refbit := False\<rparr>]\<rparr>)
             else if \<not> refbit d \<and> pinCnt d = 0 then
               (case (if dirty d then writePage_via (file_ptr d) (bufPool s1 ! h) s1 else Inr s1) of
                  Inl e \<Rightarrow> (Inl e, s1)
                | Inr s2 \<Rightarrow>
                    (case ht_remove (hashTable s2) (file_ptr d) (pageNo d) of
                       None \<Rightarrow> (Inl HashNotFound, s2)
                     | Some m \<Rightarrow>
                         (Inr h, s2\<lparr>hashTable := m,
                                    bufDescTable := (bufDescTable s2)[h := BufDesc_Clear d]\<rparr>)))
             else allocBuf_loop fuel current s1
           else
             (Inr h, s1\<lparr>bufDescTable :=
                          (bufDescTable s1)[h := BufDesc_Set d (file_ptr d) (pageNo d)]\<rparr>)))"

definition allocBuf :: "BufMgr \<Rightarrow> FrameId result" where
  "allocBuf s = allocBuf_loop (2 * numBufs s + 1) 0 s"

text \<open>\<open>readPage\<close>; the result is the frame whose payload slot the returned pointer
  refers to.\<close>

definition readPage :: "File \<Rightarrow> PageId \<Rightarrow> BufMgr \<Rightarrow> FrameId result" where
  "readPage F p s =
     (case ht_lookup (hashTable s) F p of
        Some f \<Rightarrow>
          (let s1 = s\<lparr>frameNum := f\<rparr>; d = bufDescTable s1 ! f
           in (Inr f, s1\<lparr>bufDescTable :=
                           (bufDescTable s1)[f := d\<lparr>refbit := True, pinCnt := pinCnt d + 1\<rparr>]\<rparr>))
      | None \<Rightarrow>
          (case allocBuf s of
             (Inl e, s1) \<Rightarrow> (Inl e, s1)
           | (Inr f, s1) \<Rightarrow>
               (let s2 = s1\<lparr>frameNum := f\<rparr> in
                case file_readPage F (frameNum s2) s2 of
                  (Inl e, s3) \<Rightarrow> (Inl e, s3)
                | (Inr pg, s3) \<Rightarrow>
                    (let s4 = s3\<lparr>bufPool := (bufPool s3)[frameNum s3 := pg]\<rparr>;
                         s5 = s4\<lparr>hashTable := ht_insert (hashTable s4) F p (frameNum s4)\<rparr>;
                         d = bufDescTable s5 ! frameNum s5
                     in (Inr (frameNum s5),
                         s5\<lparr>bufDescTable :=
                              (bufDescTable s5)[frameNum s5 := BufDesc_Set d (Some F) p]\<rparr>)))))"

text \<open>\<open>unPinPage\<close>; a lookup miss leaves \<open>frameNum\<close> as it was and switches every later
  test off.\<close>

definition unPinPage :: "File \<Rightarrow> PageId \<Rightarrow> bool \<Rightarrow> BufMgr \<Rightarrow> unit result" where
  "unPinPage F p dirtyArg s =
     (case ht_lookup (hashTable s) F p of
        None \<Rightarrow> (Inr (), s)
      | Some f \<Rightarrow>
          (let s1 = s\<lparr>frameNum := f\<rparr> in
           if pinCnt (bufDescTable s1 ! f) = 0 then (Inl PageNotPinned, s1)
           else
             (let s2 = (if dirtyArg
                        then s1\<lparr>bufDescTable :=
                                 (bufDescTable s1)[f := (bufDescTable s1 ! f)\<lparr>dirty := True\<rparr>]\<rparr>
                        else s1);
                  d2 = bufDescTable s2 ! f;
                  s3 = (if pinCnt d2 > 0
                        then s2\<lparr>bufDescTable :=
                                 (bufDescTable s2)[f := d2\<lparr>pinCnt := pinCnt d2 - 1\<rparr>]\<rparr>
                        else s2)
              in (Inr (), s3))))"

text \<open>\<open>flushFile\<close>: the \<open>for\<close> loop over the frames \<open>0 .. numBufs - 1\<close>. The argument is a
  pointer, null when the destructor passes on a descriptor without a file.\<close>

fun flushFile_loop :: "File option \<Rightarrow> nat list \<Rightarrow> BufMgr \<Rightarrow> unit result" where
  "flushFile_loop fo [] s = (Inr (), s)"
| "flushFile_loop fo (i # rest) s =
     (let d = bufDescTable s ! i in
      if file_ptr d = fo then
        (case (if dirty d
               then (case writePage_via (file_ptr d) (bufPool s ! i) s of
                       Inl e \<Rightarrow> Inl e
                     | Inr s0 \<Rightarrow>
                         Inr (s0\<lparr>bufDescTable := (bufDescTable s0)[i := d\<lparr>dirty := False\<rparr>]\<rparr>))
               else Inr s) of
           Inl e \<Rightarrow> (Inl e, s)
         | Inr s1 \<Rightarrow>
             (let d1 = bufDescTable s1 ! i in
              if pinCnt d1 > 0 then (Inl PagePinned, s1)
              else if \<not> valid d1 then (Inl BadBuffer, s1)
              else
                (case ht_remove (hashTable s1) (file_ptr d1) (pageNo d1) of
                   None \<Rightarrow> (Inl HashNotFound, s1)
                 | Some m \<Rightarrow>
                     flushFile_loop fo rest
                       (s1\<lparr>hashTable := m,
                           bufDescTable := (bufDescTable s1)[i := BufDesc_Clear d1]\<rparr>))))
      else flushFile_loop fo rest s)"

definition flushFile_ptr :: "File option \<Rightarrow> BufMgr \<Rightarrow> unit result" where
  "flushFile_ptr fo s = flushFile_loop fo [0..<numBufs s] s"

definition flushFile :: "File \<Rightarrow> BufMgr \<Rightarrow> unit result" where
  "flushFile F s = flushFile_ptr (Some F) s"

text \<open>\<open>allocPage\<close>; \<open>pg\<close> is the page \<open>file->allocatePage()\<close> returns. The result is the
  page number and the frame of the payload slot.\<close>

definition allocPage :: "File \<Rightarrow> Page \<Rightarrow> BufMgr \<Rightarrow> (PageId \<times> FrameId) result" where
  "allocPage F pg s =
     (let s0 = file_allocatePage F pg s; p = page_number pg in
      case allocBuf s0 of
        (Inl e, s1) \<Rightarrow> (Inl e, s1)
      | (Inr f, s1) \<Rightarrow>
          (let s2 = s1\<lparr>frameNum := f\<rparr>;
               s3 = s2\<lparr>bufPool := (bufPool s2)[frameNum s2 := pg]\<rparr>;
               d = bufDescTable s3 ! frameNum s3;
               s4 = s3\<lparr>bufDescTable :=
                         (bufDescTable s3)[frameNum s3 := BufDesc_Set d (Some F) p]\<rparr>;
               s5 = s4\<lparr>hashTable := ht_insert (hashTable s4) F p (frameNum s4)\<rparr>
           in (Inr (p, frameNum s5), s5)))"

text \<open>\<open>disposePage\<close>: the \<open>for\<close> loop, then \<open>file->deletePage(PageNo)\<close>.\<close>

fun disposePage_loop :: "File \<Rightarrow> PageId \<Rightarrow> nat list \<Rightarrow> BufMgr \<Rightarrow> unit result" where
  "disposePage_loop F p [] s = (Inr (), s)"
| "disposePage_loop F p (i # rest) s =
     (let d = bufDescTable s ! i in
      if file_ptr d = Some F \<and> pageNo d = p then
        (if pinCnt d > 0 then (Inl PagePinned, s)
         else
           (let s1 = s\<lparr>bufDescTable := (bufDescTable s)[i := BufDesc_Clear d]\<rparr> in
            case ht_remove (hashTable s1) (Some F) p of
              None \<Rightarrow> (Inl HashNotFound, s1)
            | Some m \<Rightarrow> disposePage_loop F p rest (s1\<lparr>hashTable := m\<rparr>)))
      else disposePage_loop F p rest s)"

definition disposePage :: "File \<Rightarrow> PageId \<Rightarrow> BufMgr \<Rightarrow> unit result" where
  "disposePage F p s =
     (case disposePage_loop F p [0..<numBufs s] s of
        (Inl e, s1) \<Rightarrow> (Inl e, s1)
      | (Inr u, s1) \<Rightarrow> (Inr (), file_deletePage F p s1))"

text \<open>\<open>BufMgr::~BufMgr\<close>: the loop that flushes the file of every dirty descriptor. An
  exception of \<open>flushFile\<close> ends it.\<close>

fun destructor_loop :: "nat list \<Rightarrow> BufMgr \<Rightarrow> unit result" where
  "destructor_loop [] s = (Inr (), s)"
| "destructor_loop (i # rest) s =
     (if dirty (bufDescTable s ! i) then
        (case flushFile_ptr (file_ptr (bufDescTable s ! i)) s of
           (Inl e, s1) \<Rightarrow> (Inl e, s1)
         | (Inr u, s1) \<Rightarrow> destructor_loop rest s1)
      else destructor_loop rest s)"

definition BufMgr_destructor :: "BufMgr \<Rightarrow> unit result" where
  "BufMgr_destructor s = destructor_loop [0..<numBufs s] s"

section \<open>Concrete pools used below\<close>

text \<open>The frame the clock hand points at after one \<open>advanceClock\<close>.\<close>

definition nextHand :: "BufMgr \<Rightarrow> FrameId" where
  "nextHand s = ((clockHand s + 1) mod 2 ^ 32) mod numBufs s"

definition pageA :: Page where "pageA = \<lparr>page_number = 0, payload = 100\<rparr>"
definition pageB :: Page where "pageB = \<lparr>page_number = 7, payload = 107\<rparr>"
definition page1 :: Page where "page1 = \<lparr>page_number = 1, payload = 101\<rparr>"

text \<open>File 0 holds pages 0 and 7; no other file holds a page.\<close>

definition disk07 :: "File \<Rightarrow> (PageId \<rightharpoonup> Page)" where
  "disk07 F = (if F = 0 then [0 \<mapsto> pageA, 7 \<mapsto> pageB] else Map.empty)"

definition noDisk :: "File \<Rightarrow> (PageId \<rightharpoonup> Page)" where
  "noDisk F = Map.empty"

text \<open>A pool of two frames after \<open>allocPage\<close> on file 0 has handed out page 0: frame 0
  holds it, pinned once.\<close>

definition pool_a :: BufMgr where
  "pool_a = snd (allocPage 0 pageA (BufMgr_new 2 noDisk))"

text \<open>After a second \<open>allocPage\<close> (page 1): both frames pinned.\<close>

definition pool_ab :: BufMgr where
  "pool_ab = snd (allocPage 0 page1 pool_a)"

text \<open>Then page 1 is unpinned clean: frame 0 pinned, frame 1 unpinned with its reference
  bit set.\<close>

definition pool_warm :: BufMgr where
  "pool_warm = snd (unPinPage 0 1 False pool_ab)"

text \<open>Or page 1 is unpinned dirty: frame 0 pinned and clean, frame 1 unpinned and dirty.\<close>

definition pool_dirty :: BufMgr where
  "pool_dirty = snd (unPinPage 0 1 True pool_ab)"

text \<open>From \<open>pool_a\<close>: page 0 is read again (second pin) and unpinned dirty once, so frame 0
  is dirty and still pinned.\<close>

definition pool_pinned_dirty :: BufMgr where
  "pool_pinned_dirty = snd (unPinPage 0 0 True (snd (readPage 0 0 pool_a)))"





text \<open>The number of frames whose reference bit the clock may still clear.\<close>

definition warmCount :: "BufMgr \<Rightarrow> nat" where
  "warmCount s =
     length (filter (\<lambda>i. valid (bufDescTable s ! i) \<and> pinCnt (bufDescTable s ! i) = 0 \<and>
                          refbit (bufDescTable s ! i)) [0..<numBufs s])"

text \<open>The public operations as values, and the state a call leaves behind, whether it
  returns or fails.\<close>

datatype call =
    ReadPageCall File PageId
  | UnPinPageCall File PageId bool
  | AllocPageCall File Page
  | DisposePageCall File PageId
  | FlushFileCall File

fun after :: "call \<Rightarrow> BufMgr \<Rightarrow> BufMgr" where
  "after (ReadPageCall F p) s = snd (readPage F p s)"
| "after (UnPinPageCall F p d) s = snd (unPinPage F p d s)"
| "after (AllocPageCall F pg) s = snd (allocPage F pg s)"
| "after (DisposePageCall F p) s = snd (disposePage F p s)"
| "after (FlushFileCall F) s = snd (flushFile F s)"

text \<open>Frame \<open>i\<close> still holds the same page, valid and dirty.\<close>

definition stays_dirty :: "BufMgr \<Rightarrow> BufMgr \<Rightarrow> FrameId \<Rightarrow> bool" where
  "stays_dirty s s' i =
     (valid (bufDescTable s' ! i) \<and> dirty (bufDescTable s' ! i) \<and>
      file_ptr (bufDescTable s' ! i) = file_ptr (bufDescTable s ! i) \<and>
      pageNo (bufDescTable s' ! i) = pageNo (bufDescTable s ! i))"

text \<open>Between \<open>s\<close> and \<open>s'\<close> the payload of frame \<open>i\<close> was written to the frame's file: the
  trace of \<open>s'\<close> extends that of \<open>s\<close> by calls among which is that \<open>writePage\<close>.\<close>

definition written_back :: "BufMgr \<Rightarrow> BufMgr \<Rightarrow> FrameId \<Rightarrow> bool" where
  "written_back s s' i =
     (case file_ptr (bufDescTable s ! i) of
        None \<Rightarrow> False
      | Some F \<Rightarrow>
          take (length (io s)) (io s') = io s \<and>
          WritePage F (bufPool s ! i) \<in> set (drop (length (io s)) (io s')))"

text \<open>The call disposes of the very page frame \<open>i\<close> holds.\<close>

fun disposes :: "call \<Rightarrow> BufMgr \<Rightarrow> FrameId \<Rightarrow> bool" where
  "disposes (DisposePageCall F p) s i =
     (file_ptr (bufDescTable s ! i) = Some F \<and> pageNo (bufDescTable s ! i) = p)"
| "disposes c s i = False"

section \<open>Unfolding the clock loop\<close>

lemma allocBuf_loop_unfold:
  "0 < fuel \<Longrightarrow> allocBuf_loop fuel current s =
     (case advanceClock s of
        Inl e \<Rightarrow> (Inl e, s)
      | Inr s1 \<Rightarrow>
          (let h = clockHand s1; d = bufDescTable s1 ! h in
           if valid d then
             if pinCnt d > 0 then
               (if current + 1 = numBufs s1 then (Inl BufferExceeded, s1)
                else allocBuf_loop (fuel - 1) (current + 1) s1)
             else if refbit d then
               allocBuf_loop (fuel - 1) current
                 (s1\<lparr>bufDescTable := (bufDescTable s1)[h := d\<lparr>refbit := False\<rparr>]\<rparr>)
             else if \<not> refbit d \<and> pinCnt d = 0 then
               (case (if dirty d then writePage_via (file_ptr d) (bufPool s1 ! h) s1 else Inr s1) of
                  Inl e \<Rightarrow> (Inl e, s1)
                | Inr s2 \<Rightarrow>
                    (case ht_remove (hashTable s2) (file_ptr d) (pageNo d) of
                       None \<Rightarrow> (Inl HashNotFound, s2)
                     | Some m \<Rightarrow>
                         (Inr h, s2\<lparr>hashTable := m,
                                    bufDescTable := (bufDescTable s2)[h := BufDesc_Clear d]\<rparr>)))
             else allocBuf_loop (fuel - 1) current s1
           else
             (Inr h, s1\<lparr>bufDescTable :=
                          (bufDescTable s1)[h := BufDesc_Set d (file_ptr d) (pageNo d)]\<rparr>)))"
proof -
  assume "0 < fuel"
  then obtain n where n: "fuel = Suc n" by (cases fuel) auto
  show ?thesis by (simp only: n allocBuf_loop.simps diff_Suc_1)
qed

text \<open>When the first frame the hand reaches is not valid, \<open>allocBuf\<close> returns it at once.\<close>

lemma allocBuf_empty_first:
  assumes "0 < numBufs s" and "\<not> valid (bufDescTable s ! nextHand s)"
  shows "allocBuf s =
    (Inr (nextHand s),
     s\<lparr>clockHand := nextHand s,
       bufDescTable := (bufDescTable s)[nextHand s :=
          BufDesc_Set (bufDescTable s ! nextHand s) (file_ptr (bufDescTable s ! nextHand s))
            (pageNo (bufDescTable s ! nextHand s))]\<rparr>)"
  using assms unfolding allocBuf_def
  by (subst allocBuf_loop_unfold) (simp_all add: advanceClock_def nextHand_def Let_def)

section \<open>The fuel of the clock loop is never used up\<close>

lemma warm_filter_less:
  assumes "h < n" and "Q h" and "\<not> Q' h" and "\<And>i. i \<noteq> h \<Longrightarrow> Q' i = Q i"
  shows "length (filter Q' [0..<n]) < length (filter Q [0..<n])"
proof -
  have c: "\<And>P. length (filter P [0..<n]) = card {i. i < n \<and> P i}"
  proof -
    fix P
    have "{i. i < length [0..<n] \<and> P ([0..<n] ! i)} = {i. i < n \<and> P i}" by auto
    then show "length (filter P [0..<n]) = card {i. i < n \<and> P i}"
      by (simp add: length_filter_conv_card)
  qed
  have "{i. i < n \<and> Q' i} \<subset> {i. i < n \<and> Q i}"
    using assms by (auto; metis)
  then have "card {i. i < n \<and> Q' i} < card {i. i < n \<and> Q i}"
    by (intro psubset_card_mono) auto
  then show ?thesis by (simp add: c)
qed

lemma allocBuf_loop_fuel:
  "0 < numBufs s \<Longrightarrow> numBufs s \<le> length (bufDescTable s) \<Longrightarrow> c < numBufs s \<Longrightarrow>
   (numBufs s - c) + warmCount s \<le> fuel \<Longrightarrow>
   fst (allocBuf_loop fuel c s) \<noteq> Inl OutOfFuel"
proof (induction fuel arbitrary: c s)
  case 0
  then show ?case by simp
next
  case (Suc n)
  let ?h = "nextHand s"
  let ?d = "bufDescTable s ! ?h"
  let ?s1 = "s\<lparr>clockHand := ?h\<rparr>"
  from Suc.prems(1) have adv: "advanceClock s = Inr ?s1"
    by (simp add: advanceClock_def nextHand_def)
  from Suc.prems(1) have h: "?h < numBufs s" by (simp add: nextHand_def)
  have w1: "warmCount ?s1 = warmCount s" by (simp add: warmCount_def)
  show ?case
  proof (cases "valid ?d")
    case False
    with adv show ?thesis by (simp add: Let_def)
  next
    case True
    note v = this
    show ?thesis
    proof (cases "0 < pinCnt ?d")
      case True
      show ?thesis
      proof (cases "c + 1 = numBufs s")
        case True
        with v \<open>0 < pinCnt ?d\<close> adv show ?thesis by (simp add: Let_def)
      next
        case False
        with Suc.prems w1 have "fst (allocBuf_loop n (c + 1) ?s1) \<noteq> Inl OutOfFuel"
          by (intro Suc.IH) auto
        with v \<open>0 < pinCnt ?d\<close> False adv show ?thesis by (simp add: Let_def)
      qed
    next
      case False
      note unp = this
      show ?thesis
      proof (cases "refbit ?d")
        case True
        let ?s2 = "?s1\<lparr>bufDescTable := (bufDescTable ?s1)[?h := ?d\<lparr>refbit := False\<rparr>]\<rparr>"
        let ?Q = "\<lambda>i. valid (bufDescTable s ! i) \<and> pinCnt (bufDescTable s ! i) = 0 \<and>
                      refbit (bufDescTable s ! i)"
        let ?t2 = "(bufDescTable s)[?h := ?d\<lparr>refbit := False\<rparr>]"
        let ?Q' = "\<lambda>i. valid (?t2 ! i) \<and> pinCnt (?t2 ! i) = 0 \<and> refbit (?t2 ! i)"
        have "length (filter ?Q' [0..<numBufs s]) < length (filter ?Q [0..<numBufs s])"
        proof (rule warm_filter_less [where h = ?h])
          show "?h < numBufs s" by (rule h)
          show "?Q ?h" using v unp True by simp
          show "\<not> ?Q' ?h" using h Suc.prems(2) by simp
          show "\<And>i. i \<noteq> ?h \<Longrightarrow> ?Q' i = ?Q i" by simp
        qed
        then have "warmCount ?s2 < warmCount s" by (simp add: warmCount_def)
        with Suc.prems have "fst (allocBuf_loop n c ?s2) \<noteq> Inl OutOfFuel"
          by (intro Suc.IH) auto
        with v unp True adv show ?thesis by (simp add: Let_def)
      next
        case False
        with v unp adv show ?thesis
          by (auto simp: Let_def writePage_via_def split: sum.splits option.splits)
      qed
    qed
  qed
qed

lemma allocBuf_fuel_suffices:
  assumes "0 < numBufs s" and "numBufs s \<le> length (bufDescTable s)"
  shows "fst (allocBuf s) \<noteq> Inl OutOfFuel"
proof -
  have "warmCount s \<le> numBufs s"
    unfolding warmCount_def using length_filter_le [of _ "[0..<numBufs s]"] by simp
  then have "(numBufs s - 0) + warmCount s \<le> 2 * numBufs s + 1" by simp
  from allocBuf_loop_fuel [OF assms(1,2) assms(1) this] show ?thesis
    by (simp add: allocBuf_def)
qed

section \<open>The concrete pools, field by field\<close>

lemma upt_0_2: "[0..<2] = [0, Suc 0]"
  by (simp add: upt_rec numeral_2_eq_2)

lemma replicate_2: "replicate 2 x = [x, x]"
  by (simp add: numeral_2_eq_2)

lemma new2:
  "BufMgr_new 2 dsk =
     \<lparr>numBufs = 2,
      bufDescTable = [BufDesc_new\<lparr>frameNo := 0, valid := False\<rparr>,
                      BufDesc_new\<lparr>frameNo := 1, valid := False\<rparr>],
      bufPool = [\<lparr>page_number = 0, payload = 0\<rparr>, \<lparr>page_number = 0, payload = 0\<rparr>],
      hashTable = Map.empty, clockHand = 1, frameNum = 0, disk = dsk, io = []\<rparr>"
  by (simp add: BufMgr_new_def upt_0_2 replicate_2)

lemma pool_a_fields:
  "numBufs pool_a = 2"
  "clockHand pool_a = 0"
  "bufDescTable pool_a =
     [\<lparr>file_ptr = Some 0, pageNo = 0, frameNo = 0, pinCnt = 1, dirty = False, valid = True,
       refbit = True\<rparr>,
      \<lparr>file_ptr = None, pageNo = 0, frameNo = 1, pinCnt = 0, dirty = False, valid = False,
       refbit = False\<rparr>]"
  "bufPool pool_a = [pageA, \<lparr>page_number = 0, payload = 0\<rparr>]"
  "hashTable pool_a = [(0, 0) \<mapsto> 0]"
  "io pool_a = [AllocatePage 0 0]"
  by (simp_all add: pool_a_def allocPage_def new2 file_allocatePage_def allocBuf_empty_first
      nextHand_def BufDesc_new_def BufDesc_Set_def ht_insert_def pageA_def Let_def)

lemma pool_ab_fields:
  "numBufs pool_ab = 2"
  "clockHand pool_ab = 1"
  "bufDescTable pool_ab =
     [\<lparr>file_ptr = Some 0, pageNo = 0, frameNo = 0, pinCnt = 1, dirty = False, valid = True,
       refbit = True\<rparr>,
      \<lparr>file_ptr = Some 0, pageNo = 1, frameNo = 1, pinCnt = 1, dirty = False, valid = True,
       refbit = True\<rparr>]"
  "bufPool pool_ab = [pageA, page1]"
  "hashTable pool_ab = [(0, 0) \<mapsto> 0, (0, 1) \<mapsto> 1]"
  "io pool_ab = [AllocatePage 0 0, AllocatePage 0 1]"
  by (simp_all add: pool_ab_def allocPage_def pool_a_fields file_allocatePage_def
      allocBuf_empty_first nextHand_def BufDesc_Set_def ht_insert_def page1_def Let_def)

lemma pool_warm_fields:
  "numBufs pool_warm = 2"
  "clockHand pool_warm = 1"
  "bufDescTable pool_warm =
     [\<lparr>file_ptr = Some 0, pageNo = 0, frameNo = 0, pinCnt = 1, dirty = False, valid = True,
       refbit = True\<rparr>,
      \<lparr>file_ptr = Some 0, pageNo = 1, frameNo = 1, pinCnt = 0, dirty = False, valid = True,
       refbit = True\<rparr>]"
  "hashTable pool_warm = [(0, 0) \<mapsto> 0, (0, 1) \<mapsto> 1]"
  by (simp_all add: pool_warm_def unPinPage_def pool_ab_fields ht_lookup_def Let_def)

lemma pool_a_disk:
  "disk pool_a 0 = [0 \<mapsto> pageA]"
  by (simp add: pool_a_def allocPage_def new2 file_allocatePage_def allocBuf_empty_first
      nextHand_def BufDesc_new_def BufDesc_Set_def ht_insert_def pageA_def Let_def noDisk_def)

lemma pool_dirty_fields:
  "numBufs pool_dirty = 2"
  "bufDescTable pool_dirty =
     [\<lparr>file_ptr = Some 0, pageNo = 0, frameNo = 0, pinCnt = 1, dirty = False, valid = True,
       refbit = True\<rparr>,
      \<lparr>file_ptr = Some 0, pageNo = 1, frameNo = 1, pinCnt = 0, dirty = True, valid = True,
       refbit = True\<rparr>]"
  "io pool_dirty = [AllocatePage 0 0, AllocatePage 0 1]"
  by (simp_all add: pool_dirty_def unPinPage_def pool_ab_fields ht_lookup_def Let_def)

lemma pool_pinned_dirty_fields:
  "numBufs pool_pinned_dirty = 2"
  "bufDescTable pool_pinned_dirty =
     [\<lparr>file_ptr = Some 0, pageNo = 0, frameNo = 0, pinCnt = 1, dirty = True, valid = True,
       refbit = True\<rparr>,
      \<lparr>file_ptr = None, pageNo = 0, frameNo = 1, pinCnt = 0, dirty = False, valid = False,
       refbit = False\<rparr>]"
  "bufPool pool_pinned_dirty = [pageA, \<lparr>page_number = 0, payload = 0\<rparr>]"
  "io pool_pinned_dirty = [AllocatePage 0 0]"
  by (simp_all add: pool_pinned_dirty_def unPinPage_def readPage_def pool_a_fields ht_lookup_def
      Let_def)

section \<open>Claims\<close>

text \<open>
  C1. On a \<open>readPage\<close> miss the manager should load \<open>file.readPage(pageNo)\<close>, the page
  number the client passed. The source passes the frame index instead: on a fresh pool
  of two frames, \<open>readPage(0, 7)\<close> asks file 0 for page 0, puts page 0 (not page 7) into
  the payload slot of frame 0 and registers the frame under page 7.
\<close>

theorem C1_readPage_asks_for_frame_index:
  "fst (readPage 0 7 (BufMgr_new 2 disk07)) = Inr 0 \<and>
   io (snd (readPage 0 7 (BufMgr_new 2 disk07))) = [ReadPage 0 0] \<and>
   bufPool (snd (readPage 0 7 (BufMgr_new 2 disk07))) ! 0 = pageA \<and>
   disk07 0 7 = Some pageB \<and> pageA \<noteq> pageB \<and>
   hashTable (snd (readPage 0 7 (BufMgr_new 2 disk07))) (0, 7) = Some 0"
  by (simp add: readPage_def new2 ht_lookup_def allocBuf_empty_first nextHand_def
      BufDesc_new_def BufDesc_Set_def ht_insert_def file_readPage_def disk07_def pageA_def
      pageB_def Let_def)

text \<open>
  C3. \<open>allocBuf\<close> should raise \<open>BufferExceeded\<close> only when every frame is pinned, and a
  pinned frame passed on two sweeps should not be counted twice. The source counts every
  visit of a pinned frame: in the pool of two frames where frame 0 is pinned and frame 1
  is unpinned with its reference bit set, the hand passes frame 0, clears the reference
  bit of frame 1, passes frame 0 again, and \<open>allocBuf\<close> raises \<open>BufferExceeded\<close> although
  frame 1 is valid and has \<open>pinCnt = 0\<close>.
\<close>

theorem C3_allocBuf_counts_pinned_frame_twice:
  "fst (allocBuf pool_warm) = Inl BufferExceeded \<and>
   numBufs pool_warm = 2 \<and>
   valid (bufDescTable pool_warm ! 1) \<and> pinCnt (bufDescTable pool_warm ! 1) = 0"
proof -
  have "fst (allocBuf pool_warm) = Inl BufferExceeded"
    unfolding allocBuf_def
    apply (subst allocBuf_loop_unfold, simp add: pool_warm_fields)
    apply (simp add: advanceClock_def pool_warm_fields Let_def del: allocBuf_loop.simps)
    apply (subst allocBuf_loop_unfold, simp)
    apply (simp add: advanceClock_def pool_warm_fields Let_def del: allocBuf_loop.simps)
    apply (subst allocBuf_loop_unfold, simp)
    apply (simp add: advanceClock_def pool_warm_fields Let_def del: allocBuf_loop.simps)
    done
  then show ?thesis by (simp add: pool_warm_fields)
qed

text \<open>
  C2. \<open>flushFile\<close> should never write back a pinned frame of the file. The source tests
  the dirty bit before the pin count: frame 0 holds page 0 of file 0, dirty, with one pin
  outstanding; \<open>flushFile(0)\<close> calls \<open>writePage\<close> for it, clears its dirty bit, and only
  then fails with \<open>PagePinned\<close>.
\<close>

theorem C2_flushFile_writes_pinned_frame:
  "pinCnt (bufDescTable pool_pinned_dirty ! 0) = 1 \<and>
   file_ptr (bufDescTable pool_pinned_dirty ! 0) = Some 0 \<and>
   dirty (bufDescTable pool_pinned_dirty ! 0) \<and>
   fst (flushFile 0 pool_pinned_dirty) = Inl PagePinned \<and>
   io (snd (flushFile 0 pool_pinned_dirty)) = io pool_pinned_dirty @ [WritePage 0 pageA] \<and>
   \<not> dirty (bufDescTable (snd (flushFile 0 pool_pinned_dirty)) ! 0)"
  by (simp add: flushFile_def flushFile_ptr_def pool_pinned_dirty_fields upt_0_2
      writePage_via_def file_writePage_def Let_def)

text \<open>
  C4. After every public operation, a frame should be valid exactly when one directory
  entry maps to it, and there should be as many valid frames as directory entries. On a
  fresh pool over an empty file, \<open>readPage(0, 0)\<close> fails with the I/O error of the file
  layer and leaves frame 0 valid while the directory is empty: one valid frame, no entry.
\<close>

theorem C4_valid_frame_without_directory_entry:
  "fst (readPage 0 0 (BufMgr_new 2 noDisk)) = Inl InvalidPage \<and>
   valid (bufDescTable (snd (readPage 0 0 (BufMgr_new 2 noDisk))) ! 0) \<and>
   (\<forall>k. hashTable (snd (readPage 0 0 (BufMgr_new 2 noDisk))) k \<noteq> Some 0) \<and>
   length (filter valid (bufDescTable (snd (readPage 0 0 (BufMgr_new 2 noDisk))))) = 1 \<and>
   dom (hashTable (snd (readPage 0 0 (BufMgr_new 2 noDisk)))) = {}"
  by (simp add: readPage_def new2 ht_lookup_def allocBuf_empty_first nextHand_def
      BufDesc_new_def BufDesc_Set_def file_readPage_def noDisk_def Let_def)

text \<open>
  C5. When \<open>file.readPage\<close> fails during a miss, the victim frame should be left invalid.
  In \<open>pool_a\<close> frame 1 is invalid; \<open>readPage(0, 5)\<close> misses, \<open>allocBuf\<close> hands out frame 1
  already set, the file holds neither page 5 nor page 1, the read fails, and the error
  reaches the caller with frame 1 valid and pinned once and no directory entry for
  (0, 5).
\<close>

theorem C5_failed_read_leaves_frame_valid:
  "hashTable pool_a (0, 5) = None \<and> disk pool_a 0 5 = None \<and> disk pool_a 0 1 = None \<and>
   \<not> valid (bufDescTable pool_a ! 1) \<and>
   fst (readPage 0 5 pool_a) = Inl InvalidPage \<and>
   valid (bufDescTable (snd (readPage 0 5 pool_a)) ! 1) \<and>
   pinCnt (bufDescTable (snd (readPage 0 5 pool_a)) ! 1) = 1 \<and>
   hashTable (snd (readPage 0 5 pool_a)) (0, 5) = None"
  by (simp add: readPage_def pool_a_fields pool_a_disk ht_lookup_def allocBuf_empty_first
      nextHand_def BufDesc_Set_def file_readPage_def Let_def)

text \<open>
  C6. The destructor should write back every dirty frame, pinned or not. In \<open>pool_dirty\<close>
  frame 0 (page 0 of file 0) is pinned and clean and frame 1 (page 1 of file 0) is dirty.
  The destructor calls \<open>flushFile(0)\<close> for frame 1; \<open>flushFile\<close> meets the pinned frame 0
  first and throws \<open>PagePinned\<close>, which ends the destructor's loop: no \<open>writePage\<close> is
  called and frame 1 is still dirty.
\<close>

theorem C6_destructor_leaves_dirty_frame:
  "dirty (bufDescTable pool_dirty ! 1) \<and>
   file_ptr (bufDescTable pool_dirty ! 1) = Some 0 \<and>
   fst (BufMgr_destructor pool_dirty) = Inl PagePinned \<and>
   io (snd (BufMgr_destructor pool_dirty)) = io pool_dirty \<and>
   (\<forall>pg. WritePage 0 pg \<notin> set (io (snd (BufMgr_destructor pool_dirty)))) \<and>
   dirty (bufDescTable (snd (BufMgr_destructor pool_dirty)) ! 1)"
  by (simp add: BufMgr_destructor_def flushFile_ptr_def pool_dirty_fields upt_0_2 Let_def)









lemma nth_update_if:
  "xs[f := y] ! i = (if i = f \<and> f < length xs then y else xs ! i)"
  by (cases "f < length xs"; cases "i = f"; simp add: list_update_beyond)

text \<open>
  C9. \<open>unPinPage(file, pageNo, dirty)\<close> changes at most the \<open>dirty\<close> and \<open>pinCnt\<close> fields of
  the frame the directory gives for \<open>(file, pageNo)\<close>: the directory, the payload slots,
  the clock hand, the files and the trace stay as they are, every other descriptor is
  unchanged, no descriptor changes its \<open>refbit\<close>, \<open>valid\<close>, \<open>file\<close>, \<open>pageNo\<close> or \<open>frameNo\<close>,
  and on a page that is not resident the call returns normally with the state unchanged.
\<close>

theorem C9_unPinPage_frame_effect:
  assumes "unPinPage F p dirtyArg s = (r, s')"
  shows "hashTable s' = hashTable s \<and> bufPool s' = bufPool s \<and>
         clockHand s' = clockHand s \<and> numBufs s' = numBufs s \<and>
         disk s' = disk s \<and> io s' = io s \<and>
         length (bufDescTable s') = length (bufDescTable s) \<and>
         (\<forall>i. hashTable s (F, p) \<noteq> Some i \<longrightarrow> bufDescTable s' ! i = bufDescTable s ! i) \<and>
         (\<forall>i. refbit (bufDescTable s' ! i) = refbit (bufDescTable s ! i) \<and>
              valid (bufDescTable s' ! i) = valid (bufDescTable s ! i) \<and>
              file_ptr (bufDescTable s' ! i) = file_ptr (bufDescTable s ! i) \<and>
              pageNo (bufDescTable s' ! i) = pageNo (bufDescTable s ! i) \<and>
              frameNo (bufDescTable s' ! i) = frameNo (bufDescTable s ! i)) \<and>
         (hashTable s (F, p) = None \<longrightarrow> r = Inr () \<and> s' = s)"
proof (cases "hashTable s (F, p)")
  case None
  with assms show ?thesis by (simp add: unPinPage_def ht_lookup_def)
next
  case (Some f)
  let ?t = "bufDescTable s"
  from assms Some have
    "s' = s\<lparr>frameNum := f\<rparr> \<or>
     s' = s\<lparr>frameNum := f, bufDescTable := ?t[f := (?t ! f)\<lparr>pinCnt := pinCnt (?t ! f) - 1\<rparr>]\<rparr> \<or>
     s' = s\<lparr>frameNum := f,
            bufDescTable := ?t[f := (?t ! f)\<lparr>dirty := True, pinCnt := pinCnt (?t ! f) - 1\<rparr>]\<rparr>"
    by (cases "f < length ?t")
       (auto simp: unPinPage_def ht_lookup_def Let_def list_update_beyond split: if_splits)
  then show ?thesis
    using Some by (elim disjE) (simp_all add: nth_update_if)
qed

theorem C9_unPinPage_frame_effect_witness:
  "hashTable pool_ab (0, 1) = Some 1 \<and>
   refbit (bufDescTable (snd (unPinPage 0 1 True pool_ab)) ! 1) = refbit (bufDescTable pool_ab ! 1) \<and>
   bufDescTable (snd (unPinPage 0 1 True pool_ab)) ! 0 = bufDescTable pool_ab ! 0 \<and>
   hashTable (snd (unPinPage 0 1 True pool_ab)) = hashTable pool_ab \<and>
   hashTable pool_ab (0, 9) = None \<and>
   unPinPage 0 9 True pool_ab = (Inr (), pool_ab)"
  using C9_unPinPage_frame_effect [of 0 1 True pool_ab "fst (unPinPage 0 1 True pool_ab)"
      "snd (unPinPage 0 1 True pool_ab)"]
    C9_unPinPage_frame_effect [of 0 9 True pool_ab "fst (unPinPage 0 9 True pool_ab)"
      "snd (unPinPage 0 9 True pool_ab)"]
  by (simp add: pool_ab_fields prod_eq_iff)

lemma advanceClock_cases:
  "advanceClock s = Inl DivisionByZero \<and> numBufs s = 0 \<or>
   advanceClock s = Inr (s\<lparr>clockHand := nextHand s\<rparr>) \<and> 0 < numBufs s"
  by (simp add: advanceClock_def nextHand_def)

lemma allocBuf_loop_empty_victim:
  "allocBuf_loop fuel c s = (Inr f, s') \<Longrightarrow> \<not> valid (bufDescTable s ! f) \<Longrightarrow>
   f < length (bufDescTable s) \<Longrightarrow>
   bufDescTable s' ! f =
     BufDesc_Set (bufDescTable s ! f) (file_ptr (bufDescTable s ! f)) (pageNo (bufDescTable s ! f)) \<and>
   hashTable s' = hashTable s"
proof (induction fuel arbitrary: c s)
  case 0
  then show ?case by simp
next
  case (Suc n)
  let ?h = "nextHand s"
  let ?d = "bufDescTable s ! ?h"
  let ?s1 = "s\<lparr>clockHand := ?h\<rparr>"
  from Suc.prems(1) advanceClock_cases [of s]
  have adv: "advanceClock s = Inr ?s1" by auto
  show ?case
  proof (cases "valid ?d")
    case False
    with Suc.prems adv show ?thesis by (auto simp: Let_def)
  next
    case True
    then have hf: "?h \<noteq> f" using Suc.prems(2) by auto
    show ?thesis
    proof (cases "0 < pinCnt ?d")
      case True
      with \<open>valid ?d\<close> Suc.prems(1) adv
      have "allocBuf_loop n (c + 1) ?s1 = (Inr f, s')"
        by (auto simp: Let_def split: if_splits)
      from Suc.IH [OF this] Suc.prems(2,3) show ?thesis by simp
    next
      case False
      note unpinned = this
      show ?thesis
      proof (cases "refbit ?d")
        case True
        let ?s2 = "?s1\<lparr>bufDescTable := (bufDescTable ?s1)[?h := ?d\<lparr>refbit := False\<rparr>]\<rparr>"
        from True unpinned \<open>valid ?d\<close> Suc.prems(1) adv
        have "allocBuf_loop n c ?s2 = (Inr f, s')"
          by (auto simp: Let_def)
        from Suc.IH [OF this] Suc.prems(2,3) hf show ?thesis by simp
      next
        case False
        with unpinned \<open>valid ?d\<close> Suc.prems(1) adv have "f = ?h"
          by (auto simp: Let_def split: if_splits sum.splits option.splits)
        with hf show ?thesis by simp
      qed
    qed
  qed
qed

text \<open>
  C10. Whenever \<open>allocBuf\<close> returns a frame that was invalid, the frame comes back
  already put through \<open>Set\<close> with its own stale file pointer and page number: valid,
  \<open>pinCnt = 1\<close>, \<open>refbit = 1\<close>, and \<open>allocBuf\<close> has not touched the directory, so a frame no
  entry mapped to still has none.
\<close>

theorem C10_allocBuf_sets_empty_victim:
  assumes "allocBuf s = (Inr f, s')"
    and "\<not> valid (bufDescTable s ! f)"
    and "f < length (bufDescTable s)"
  shows "valid (bufDescTable s' ! f) \<and> pinCnt (bufDescTable s' ! f) = 1 \<and>
         refbit (bufDescTable s' ! f) \<and>
         file_ptr (bufDescTable s' ! f) = file_ptr (bufDescTable s ! f) \<and>
         pageNo (bufDescTable s' ! f) = pageNo (bufDescTable s ! f) \<and>
         bufDescTable s' ! f =
           BufDesc_Set (bufDescTable s ! f) (file_ptr (bufDescTable s ! f))
             (pageNo (bufDescTable s ! f)) \<and>
         hashTable s' = hashTable s \<and>
         ((\<forall>k. hashTable s k \<noteq> Some f) \<longrightarrow> (\<forall>k. hashTable s' k \<noteq> Some f))"
  using allocBuf_loop_empty_victim [OF assms [unfolded allocBuf_def]]
  by (simp add: BufDesc_Set_def)

theorem C10_allocBuf_sets_empty_victim_witness:
  "allocBuf pool_a = (Inr 1, snd (allocBuf pool_a)) \<and>
   \<not> valid (bufDescTable pool_a ! 1) \<and> 1 < length (bufDescTable pool_a) \<and>
   valid (bufDescTable (snd (allocBuf pool_a)) ! 1) \<and>
   pinCnt (bufDescTable (snd (allocBuf pool_a)) ! 1) = 1 \<and>
   refbit (bufDescTable (snd (allocBuf pool_a)) ! 1) \<and>
   file_ptr (bufDescTable (snd (allocBuf pool_a)) ! 1) = None \<and>
   hashTable (snd (allocBuf pool_a)) = [(0, 0) \<mapsto> 0] \<and>
   (\<forall>k. hashTable pool_a k \<noteq> Some 1) \<and>
   (\<forall>k. hashTable (snd (allocBuf pool_a)) k \<noteq> Some 1)"
proof -
  have a: "allocBuf pool_a = (Inr 1, snd (allocBuf pool_a))"
    by (simp add: allocBuf_empty_first pool_a_fields nextHand_def)
  have b: "\<not> valid (bufDescTable pool_a ! 1)" "1 < length (bufDescTable pool_a)"
    by (simp_all add: pool_a_fields)
  from C10_allocBuf_sets_empty_victim [OF a b] a b show ?thesis
    by (simp add: pool_a_fields BufDesc_Set_def)
qed

section \<open>What a call does to a dirty frame\<close>

lemma allocBuf_loop_frame:
  "allocBuf_loop fuel c s = (r, s') \<Longrightarrow>
   length (bufDescTable s') = length (bufDescTable s) \<and> bufPool s' = bufPool s \<and>
   (\<exists>evs. io s' = io s @ evs)"
proof (induction fuel arbitrary: c s)
  case 0
  then show ?case by simp
next
  case (Suc n)
  let ?h = "nextHand s"
  let ?d = "bufDescTable s ! ?h"
  let ?s1 = "s\<lparr>clockHand := ?h\<rparr>"
  let ?s2 = "?s1\<lparr>bufDescTable := (bufDescTable ?s1)[?h := ?d\<lparr>refbit := False\<rparr>]\<rparr>"
  from Suc.prems advanceClock_cases [of s]
  consider (stop) "length (bufDescTable s') = length (bufDescTable s)" "bufPool s' = bufPool s"
      "io s' = io s \<or> (\<exists>F. io s' = io s @ [WritePage F (bufPool s ! ?h)])"
    | (pinned) "allocBuf_loop n (c + 1) ?s1 = (r, s')"
    | (warm) "allocBuf_loop n c ?s2 = (r, s')"
    | (other) "allocBuf_loop n c ?s1 = (r, s')"
    by (auto simp: Let_def writePage_via_def file_writePage_def ht_remove_def
        split: if_splits sum.splits option.splits)
  then show ?case
  proof cases
    case stop
    then show ?thesis by auto
  next
    case pinned
    from Suc.IH [OF this] show ?thesis by simp
  next
    case warm
    from Suc.IH [OF this] show ?thesis by simp
  next
    case other
    from Suc.IH [OF this] show ?thesis by simp
  qed
qed

lemma allocBuf_loop_victim_clean:
  "allocBuf_loop fuel c s = (Inr f, s') \<Longrightarrow> f < length (bufDescTable s) \<Longrightarrow>
   \<not> dirty (bufDescTable s' ! f)"
proof (induction fuel arbitrary: c s)
  case 0
  then show ?case by simp
next
  case (Suc n)
  let ?h = "nextHand s"
  let ?d = "bufDescTable s ! ?h"
  let ?s1 = "s\<lparr>clockHand := ?h\<rparr>"
  let ?s2 = "?s1\<lparr>bufDescTable := (bufDescTable ?s1)[?h := ?d\<lparr>refbit := False\<rparr>]\<rparr>"
  from Suc.prems advanceClock_cases [of s]
  consider (stop) "\<not> dirty (bufDescTable s' ! f)"
    | (pinned) "allocBuf_loop n (c + 1) ?s1 = (Inr f, s')"
    | (warm) "allocBuf_loop n c ?s2 = (Inr f, s')"
    | (other) "allocBuf_loop n c ?s1 = (Inr f, s')"
    by (auto simp: Let_def writePage_via_def file_writePage_def ht_remove_def
        BufDesc_Clear_def BufDesc_Set_def
        split: if_splits sum.splits option.splits)
  then show ?case
  proof cases
    case stop
    then show ?thesis .
  next
    case pinned
    from Suc.IH [OF this] Suc.prems(2) show ?thesis by simp
  next
    case warm
    from Suc.IH [OF this] Suc.prems(2) show ?thesis by simp
  next
    case other
    from Suc.IH [OF this] Suc.prems(2) show ?thesis by simp
  qed
qed

lemma written_back_iff:
  "written_back s s' i \<longleftrightarrow>
   (\<exists>F evs. file_ptr (bufDescTable s ! i) = Some F \<and> io s' = io s @ evs \<and>
            WritePage F (bufPool s ! i) \<in> set evs)"
proof
  assume "written_back s s' i"
  then obtain F where F: "file_ptr (bufDescTable s ! i) = Some F"
    and t: "take (length (io s)) (io s') = io s"
    and w: "WritePage F (bufPool s ! i) \<in> set (drop (length (io s)) (io s'))"
    by (auto simp: written_back_def split: option.splits)
  have "io s' = take (length (io s)) (io s') @ drop (length (io s)) (io s')" by simp
  with t have "io s' = io s @ drop (length (io s)) (io s')" by simp
  with F w show "\<exists>F evs. file_ptr (bufDescTable s ! i) = Some F \<and> io s' = io s @ evs \<and>
            WritePage F (bufPool s ! i) \<in> set evs" by blast
next
  assume "\<exists>F evs. file_ptr (bufDescTable s ! i) = Some F \<and> io s' = io s @ evs \<and>
            WritePage F (bufPool s ! i) \<in> set evs"
  then show "written_back s s' i" by (auto simp: written_back_def)
qed

lemma written_back_post:
  "written_back s s1 i \<Longrightarrow> io s2 = io s1 @ evs \<Longrightarrow> written_back s s2 i"
  by (auto simp: written_back_iff)

lemma written_back_pre:
  "written_back s0 s' i \<Longrightarrow> io s0 = io s @ evs \<Longrightarrow> bufPool s0 ! i = bufPool s ! i \<Longrightarrow>
   file_ptr (bufDescTable s0 ! i) = file_ptr (bufDescTable s ! i) \<Longrightarrow> written_back s s' i"
  by (auto simp: written_back_iff)

lemma stays_dirty_post:
  "stays_dirty s s1 i \<Longrightarrow> bufDescTable s2 ! i = bufDescTable s1 ! i \<Longrightarrow> stays_dirty s s2 i"
  by (simp add: stays_dirty_def)

lemma stays_dirty_pre:
  "stays_dirty s0 s' i \<Longrightarrow> file_ptr (bufDescTable s0 ! i) = file_ptr (bufDescTable s ! i) \<Longrightarrow>
   pageNo (bufDescTable s0 ! i) = pageNo (bufDescTable s ! i) \<Longrightarrow> stays_dirty s s' i"
  by (simp add: stays_dirty_def)

lemma allocBuf_loop_dirty:
  "allocBuf_loop fuel c s = (r, s') \<Longrightarrow> valid (bufDescTable s ! i) \<Longrightarrow>
   dirty (bufDescTable s ! i) \<Longrightarrow> i < length (bufDescTable s) \<Longrightarrow>
   stays_dirty s s' i \<or> written_back s s' i"
proof (induction fuel arbitrary: c s)
  case 0
  then show ?case by (simp add: stays_dirty_def)
next
  case (Suc n)
  let ?h = "nextHand s"
  let ?d = "bufDescTable s ! ?h"
  let ?s1 = "s\<lparr>clockHand := ?h\<rparr>"
  let ?s2 = "?s1\<lparr>bufDescTable := (bufDescTable ?s1)[?h := ?d\<lparr>refbit := False\<rparr>]\<rparr>"
  from Suc.prems(2,3) have hi: "i \<noteq> ?h \<or> (i = ?h \<and> valid ?d \<and> dirty ?d)" by auto
  from hi Suc.prems advanceClock_cases [of s]
  consider (stop) "bufDescTable s' ! i = bufDescTable s ! i \<or>
        (\<exists>F. file_ptr (bufDescTable s ! i) = Some F \<and>
             io s' = io s @ [WritePage F (bufPool s ! i)])"
    | (pinned) "allocBuf_loop n (c + 1) ?s1 = (r, s')"
    | (warm) "allocBuf_loop n c ?s2 = (r, s')"
    | (other) "allocBuf_loop n c ?s1 = (r, s')"
    by (auto simp: Let_def writePage_via_def file_writePage_def ht_remove_def nth_update_if
        split: if_splits sum.splits option.splits)
  then show ?case
  proof cases
    case stop
    with Suc.prems(2,3) show ?thesis
      by (auto simp: stays_dirty_def written_back_iff)
  next
    case pinned
    from Suc.IH [OF this] Suc.prems(2,3,4) show ?thesis
      by (auto simp: stays_dirty_def written_back_iff)
  next
    case warm
    let ?t2 = "(bufDescTable s)[?h := ?d\<lparr>refbit := False\<rparr>]"
    have f: "valid (?t2 ! i)" "dirty (?t2 ! i)" "file_ptr (?t2 ! i) = file_ptr (bufDescTable s ! i)"
      "pageNo (?t2 ! i) = pageNo (bufDescTable s ! i)"
      using Suc.prems(2,3) by (auto simp: nth_update_if)
    from f(1,2) Suc.prems(4) have "stays_dirty ?s2 s' i \<or> written_back ?s2 s' i"
      by (intro Suc.IH [OF warm]) simp_all
    with f(3,4) show ?thesis
      by (auto simp: stays_dirty_def written_back_iff)
  next
    case other
    from Suc.IH [OF this] Suc.prems(2,3,4) show ?thesis
      by (auto simp: stays_dirty_def written_back_iff)
  qed
qed


lemma flushFile_loop_io:
  "flushFile_loop fo js s = (r, s') \<Longrightarrow> \<exists>evs. io s' = io s @ evs"
proof (induction js arbitrary: s)
  case Nil
  then show ?case by simp
next
  case (Cons j js)
  from Cons.prems
  consider (stop) "io s' = io s \<or> (\<exists>F. io s' = io s @ [WritePage F (bufPool s ! j)])"
    | (step) s2 evs where "flushFile_loop fo js s2 = (r, s')" "io s2 = io s @ evs"
    by (auto simp: Let_def writePage_via_def file_writePage_def ht_remove_def
        split: if_splits sum.splits option.splits)
  then show ?case
  proof cases
    case stop
    then show ?thesis by auto
  next
    case step
    from Cons.IH [OF step(1)] step(2) show ?thesis by auto
  qed
qed

lemma BufDesc_Clear_dirty: "BufDesc_Clear (d\<lparr>dirty := b\<rparr>) = BufDesc_Clear d"
  by (simp add: BufDesc_Clear_def)

lemma flushFile_loop_dirty:
  "flushFile_loop fo js s = (r, s') \<Longrightarrow> valid (bufDescTable s ! i) \<Longrightarrow>
   dirty (bufDescTable s ! i) \<Longrightarrow> i < length (bufDescTable s) \<Longrightarrow>
   stays_dirty s s' i \<or> written_back s s' i"
proof (induction js arbitrary: s)
  case Nil
  then show ?case by (simp add: stays_dirty_def)
next
  case (Cons j js)
  let ?d = "bufDescTable s ! j"
  let ?c = "\<lambda>F. s\<lparr>hashTable := (hashTable s)((F, pageNo ?d) := None),
                  bufDescTable := (bufDescTable s)[j := BufDesc_Clear ?d]\<rparr>"
  let ?w = "\<lambda>F. (file_writePage F (bufPool s ! j) s)
                  \<lparr>hashTable := (hashTable s)((F, pageNo ?d) := None),
                   bufDescTable := (bufDescTable s)[j := BufDesc_Clear ?d]\<rparr>"
  from Cons.prems(1)
  consider (stop) "bufDescTable s' = bufDescTable s" "io s' = io s"
    | (stopw) F where "file_ptr ?d = Some F" "dirty ?d"
        "bufDescTable s' = (bufDescTable s)[j := ?d\<lparr>dirty := False\<rparr>]"
        "io s' = io s @ [WritePage F (bufPool s ! j)]"
    | (skip) "file_ptr ?d \<noteq> fo" "flushFile_loop fo js s = (r, s')"
    | (clean) F where "\<not> dirty ?d" "flushFile_loop fo js (?c F) = (r, s')"
    | (flushed) F where "file_ptr ?d = Some F" "dirty ?d" "flushFile_loop fo js (?w F) = (r, s')"
    by (auto simp: Let_def writePage_via_def file_writePage_def ht_remove_def nth_update_if
        BufDesc_Clear_dirty split: if_splits sum.splits option.splits)
  then show ?case
  proof cases
    case stop
    with Cons.prems(2,3) show ?thesis by (simp add: stays_dirty_def)
  next
    case stopw
    with Cons.prems(2,3,4) show ?thesis
      by (cases "i = j") (auto simp: stays_dirty_def written_back_iff)
  next
    case skip
    from Cons.IH [OF skip(2) Cons.prems(2,3,4)] show ?thesis .
  next
    case clean
    with Cons.prems(3) have ne: "i \<noteq> j" by auto
    with Cons.prems(2,3,4) have "stays_dirty (?c F) s' i \<or> written_back (?c F) s' i"
      by (intro Cons.IH [OF clean(2)]) simp_all
    with ne show ?thesis
      by (auto simp: stays_dirty_def written_back_iff)
  next
    case flushed
    show ?thesis
    proof (cases "i = j")
      case True
      from flushFile_loop_io [OF flushed(3)] flushed(1) True show ?thesis
        by (auto simp: written_back_iff file_writePage_def)
    next
      case False
      with Cons.prems(2,3,4) have "stays_dirty (?w F) s' i \<or> written_back (?w F) s' i"
        by (intro Cons.IH [OF flushed(3)]) (simp_all add: file_writePage_def)
      with False show ?thesis
        by (auto simp: stays_dirty_def written_back_iff file_writePage_def)
    qed
  qed
qed

lemma disposePage_loop_other:
  "disposePage_loop F p js s = (r, s') \<Longrightarrow>
   \<not> (file_ptr (bufDescTable s ! i) = Some F \<and> pageNo (bufDescTable s ! i) = p) \<Longrightarrow>
   bufDescTable s' ! i = bufDescTable s ! i \<and> io s' = io s"
proof (induction js arbitrary: s)
  case Nil
  then show ?case by simp
next
  case (Cons j js)
  let ?d = "bufDescTable s ! j"
  from Cons.prems(2)
  have hi: "i \<noteq> j \<or> (i = j \<and> \<not> (file_ptr ?d = Some F \<and> pageNo ?d = p))" by auto
  from hi Cons.prems
  consider (stop) "bufDescTable s' ! i = bufDescTable s ! i" "io s' = io s"
    | (step) s2 where "disposePage_loop F p js s2 = (r, s')" "io s2 = io s"
        "bufDescTable s2 ! i = bufDescTable s ! i"
    by (auto simp: Let_def ht_remove_def nth_update_if split: if_splits option.splits)
  then show ?case
  proof cases
    case stop
    then show ?thesis by simp
  next
    case step
    from step(3) Cons.prems(2)
    have "bufDescTable s' ! i = bufDescTable s2 ! i \<and> io s' = io s2"
      by (intro Cons.IH [OF step(1)]) simp
    with step(2,3) show ?thesis by simp
  qed
qed

lemma allocBuf_then_fill:
  assumes a: "allocBuf s0 = (Inr f, s1)"
    and v: "valid (bufDescTable s0 ! i)" "dirty (bufDescTable s0 ! i)"
      "i < length (bufDescTable s0)"
    and io: "io s' = io s1 @ evs"
    and t: "\<And>j. j \<noteq> f \<Longrightarrow> bufDescTable s' ! j = bufDescTable s1 ! j"
  shows "stays_dirty s0 s' i \<or> written_back s0 s' i"
proof -
  from allocBuf_loop_dirty [OF a [unfolded allocBuf_def] v]
  consider "stays_dirty s0 s1 i" | "written_back s0 s1 i" by blast
  then show ?thesis
  proof cases
    case 1
    then have d: "dirty (bufDescTable s1 ! i)" by (simp add: stays_dirty_def)
    have "f \<noteq> i"
    proof
      assume "f = i"
      with allocBuf_loop_victim_clean [OF a [unfolded allocBuf_def]] v(3) d show False by simp
    qed
    with t [of i] have "bufDescTable s' ! i = bufDescTable s1 ! i" by simp
    with 1 show ?thesis by (simp add: stays_dirty_def)
  next
    case 2
    from written_back_post [OF this io] show ?thesis by simp
  qed
qed


lemma readPage_dirty:
  assumes v: "valid (bufDescTable s ! i)" "dirty (bufDescTable s ! i)"
      "i < length (bufDescTable s)"
  shows "stays_dirty s (snd (readPage F p s)) i \<or> written_back s (snd (readPage F p s)) i"
proof (cases "hashTable s (F, p)")
  case (Some f)
  with v show ?thesis
    by (auto simp: readPage_def ht_lookup_def Let_def stays_dirty_def nth_update_if)
next
  case None
  obtain r1 s1 where a: "allocBuf s = (r1, s1)" by (cases "allocBuf s")
  show ?thesis
  proof (cases r1)
    case (Inl e)
    with a None allocBuf_loop_dirty [OF a [unfolded allocBuf_def] v] show ?thesis
      by (simp add: readPage_def ht_lookup_def)
  next
    case (Inr f)
    let ?s' = "snd (readPage F p s)"
    have "io ?s' = io s1 @ [ReadPage F f]"
      using a None Inr
      by (simp add: readPage_def ht_lookup_def Let_def file_readPage_def split: option.splits)
    moreover have "\<And>j. j \<noteq> f \<Longrightarrow> bufDescTable ?s' ! j = bufDescTable s1 ! j"
      using a None Inr
      by (simp add: readPage_def ht_lookup_def Let_def file_readPage_def split: option.splits)
    ultimately show ?thesis
      using allocBuf_then_fill [OF a [unfolded Inr] v] by blast
  qed
qed

lemma allocPage_dirty:
  assumes v: "valid (bufDescTable s ! i)" "dirty (bufDescTable s ! i)"
      "i < length (bufDescTable s)"
  shows "stays_dirty s (snd (allocPage F pg s)) i \<or> written_back s (snd (allocPage F pg s)) i"
proof -
  let ?s0 = "file_allocatePage F pg s"
  let ?s' = "snd (allocPage F pg s)"
  have s0: "bufDescTable ?s0 = bufDescTable s" "bufPool ?s0 = bufPool s"
    "io ?s0 = io s @ [AllocatePage F (page_number pg)]"
    by (simp_all add: file_allocatePage_def)
  from v s0 have v0: "valid (bufDescTable ?s0 ! i)" "dirty (bufDescTable ?s0 ! i)"
    "i < length (bufDescTable ?s0)" by simp_all
  obtain r1 s1 where a: "allocBuf ?s0 = (r1, s1)" by (cases "allocBuf ?s0")
  have "stays_dirty ?s0 ?s' i \<or> written_back ?s0 ?s' i"
  proof (cases r1)
    case (Inl e)
    with a allocBuf_loop_dirty [OF a [unfolded allocBuf_def] v0] show ?thesis
      by (simp add: allocPage_def Let_def)
  next
    case (Inr f)
    have "io ?s' = io s1 @ []"
      using a Inr by (simp add: allocPage_def Let_def)
    moreover have "\<And>j. j \<noteq> f \<Longrightarrow> bufDescTable ?s' ! j = bufDescTable s1 ! j"
      using a Inr by (simp add: allocPage_def Let_def)
    ultimately show ?thesis
      using allocBuf_then_fill [OF a [unfolded Inr] v0] by blast
  qed
  with s0 show ?thesis
    by (auto simp: stays_dirty_def written_back_iff)
qed

lemma unPinPage_dirty:
  assumes "valid (bufDescTable s ! i)" "dirty (bufDescTable s ! i)"
  shows "stays_dirty s (snd (unPinPage F p d s)) i"
  using assms
  by (cases "hashTable s (F, p)")
     (auto simp: unPinPage_def ht_lookup_def Let_def stays_dirty_def nth_update_if)

lemma disposePage_dirty:
  assumes "valid (bufDescTable s ! i)" "dirty (bufDescTable s ! i)"
    and "\<not> (file_ptr (bufDescTable s ! i) = Some F \<and> pageNo (bufDescTable s ! i) = p)"
  shows "stays_dirty s (snd (disposePage F p s)) i"
proof -
  obtain r1 s1 where l: "disposePage_loop F p [0..<numBufs s] s = (r1, s1)"
    by (cases "disposePage_loop F p [0..<numBufs s] s")
  from disposePage_loop_other [OF l assms(3)]
  have "bufDescTable s1 ! i = bufDescTable s ! i" by simp
  with l assms(1,2) show ?thesis
    by (cases r1) (simp_all add: disposePage_def stays_dirty_def file_deletePage_def)
qed

lemma unPinPage_sets_dirty:
  assumes "hashTable s (F, p) = Some f" and "f < length (bufDescTable s)"
    and "0 < pinCnt (bufDescTable s ! f)"
  shows "fst (unPinPage F p True s) = Inr () \<and>
         dirty (bufDescTable (snd (unPinPage F p True s)) ! f)"
  using assms by (simp add: unPinPage_def ht_lookup_def Let_def)

text \<open>
  C7. A dirty bit, once set, stays set for the rest of the page's residency. For every
  frame that is valid and dirty and every public call, returning or failing: afterwards
  the frame still holds the same page, valid and dirty, or the call has written the
  frame's payload back to its file (it was evicted or flushed), or the call was
  \<open>disposePage\<close> of that very page. In particular every \<open>unPinPage\<close>, whatever its
  arguments, leaves the frame dirty.
\<close>

theorem C7_dirty_until_evicted_or_flushed:
  assumes "valid (bufDescTable s ! i)" and "dirty (bufDescTable s ! i)"
    and "i < length (bufDescTable s)"
  shows "(stays_dirty s (after c s) i \<or> written_back s (after c s) i \<or> disposes c s i) \<and>
         (\<forall>F p d. c = UnPinPageCall F p d \<longrightarrow> stays_dirty s (after c s) i)"
proof (cases c)
  case (ReadPageCall F p)
  with readPage_dirty [OF assms] show ?thesis by auto
next
  case (UnPinPageCall F p d)
  with unPinPage_dirty [OF assms(1,2)] show ?thesis by auto
next
  case (AllocPageCall F pg)
  with allocPage_dirty [OF assms] show ?thesis by auto
next
  case (DisposePageCall F p)
  with disposePage_dirty [OF assms(1,2)] show ?thesis by auto
next
  case (FlushFileCall F)
  obtain r1 s1 where l: "flushFile_loop (Some F) [0..<numBufs s] s = (r1, s1)"
    by (cases "flushFile_loop (Some F) [0..<numBufs s] s")
  from flushFile_loop_dirty [OF l assms] l FlushFileCall show ?thesis
    by (simp add: flushFile_def flushFile_ptr_def)
qed

theorem C7_dirty_until_evicted_or_flushed_witness:
  "valid (bufDescTable pool_pinned_dirty ! 0) \<and> dirty (bufDescTable pool_pinned_dirty ! 0) \<and>
   0 < length (bufDescTable pool_pinned_dirty) \<and>
   fst (unPinPage 0 0 False pool_pinned_dirty) = Inr () \<and>
   pinCnt (bufDescTable (snd (unPinPage 0 0 False pool_pinned_dirty)) ! 0) = 0 \<and>
   dirty (bufDescTable (after (UnPinPageCall 0 0 False) pool_pinned_dirty) ! 0) \<and>
   \<not> dirty (bufDescTable (after (FlushFileCall 0) pool_pinned_dirty) ! 0) \<and>
   written_back pool_pinned_dirty (after (FlushFileCall 0) pool_pinned_dirty) 0"
proof -
  have fl: "\<not> dirty (bufDescTable (after (FlushFileCall 0) pool_pinned_dirty) ! 0)"
    by (simp add: flushFile_def flushFile_ptr_def pool_pinned_dirty_fields upt_0_2
        writePage_via_def file_writePage_def Let_def)
  have v: "valid (bufDescTable pool_pinned_dirty ! 0)" "dirty (bufDescTable pool_pinned_dirty ! 0)"
    "0 < length (bufDescTable pool_pinned_dirty)"
    by (simp_all add: pool_pinned_dirty_fields)
  have h: "hashTable pool_pinned_dirty = [(0, 0) \<mapsto> 0]"
    by (simp add: pool_pinned_dirty_def unPinPage_def readPage_def pool_a_fields ht_lookup_def
        Let_def)
  have u: "fst (unPinPage 0 0 False pool_pinned_dirty) = Inr ()"
    "pinCnt (bufDescTable (snd (unPinPage 0 0 False pool_pinned_dirty)) ! 0) = 0"
    by (simp_all add: unPinPage_def ht_lookup_def h pool_pinned_dirty_fields Let_def)
  from C7_dirty_until_evicted_or_flushed [OF v, of "UnPinPageCall 0 0 False"]
    C7_dirty_until_evicted_or_flushed [OF v, of "FlushFileCall 0"] v u fl
  show ?thesis by (auto simp: stays_dirty_def)
qed

end
